theory Spec2Isabelle
  imports Complex_Main "HOL-Library.Multiset"
begin

section \<open>Exceptions\<close>

text \<open>
  The exceptions that the modelled Python code lets escape. A computation that may raise
  returns \<open>error + 'a\<close>, with \<open>Inl\<close> for the exception. \<open>EmptyStoreError\<close> is the
  exception the specification names for an empty store; no path of the source raises it.
  \<open>StorageError\<close> stands for the exception with which the storage library \<open>h5py\<close> refuses
  an operation on a dataset; its class is the library's.
\<close>

datatype error =
    StopIteration
  | UnboundLocalError
  | ValueError
  | TypeError
  | IndexError
  | KeyError
  | ZeroDivisionError
  | NotImplementedError
  | EmptyStoreError
  | StorageError

section \<open>"data" mode: building a sequence store\<close>

text \<open>
  \<open>SpeakerEmbedding.data\<close> (speaker_embedding_keras.py, lines 296--421). The local
  variables of the body of the \<open>with h5py.File(...)\<close> block are the fields of a record:
  \<open>n_sequences\<close>, the three datasets \<open>X\<close>, \<open>Y\<close>, \<open>Z\<close> (fields \<open>dsX\<close>, \<open>dsY\<close>, \<open>dsZ\<close>),
  the counter \<open>i\<close> (\<open>num_i\<close>), the speech turn identifier \<open>z\<close> (\<open>turn_z\<close>) and \<open>prev_y\<close>.
  \<open>X\<close> and \<open>prev_y\<close> are bound by the first pass through the loop only, so they are
  options: \<open>None\<close> is the unbound local variable. All of them are local variables of the
  function, not of the block: what a subset leaves bound is still bound in the next one.

  A dataset is the list of its cells along axis 0. A cell of \<open>X\<close> or \<open>Y\<close> that was never
  written is \<open>None\<close> (it reads back as the fill value); \<open>Z\<close> is an \<open>int64\<close> dataset, whose
  fill value is \<open>0\<close>. The group identifier is bounded by the number of sequences, far below
  \<open>2^63\<close>, so its cells are modelled as unbounded integers.
\<close>

record ('x, 'l) locals =
  n_sequences :: nat
  dsX :: "'x option list option"
  dsY :: "'l option list"
  dsZ :: "int list"
  num_i :: nat
  turn_z :: int
  prev_y :: "'l option"

text \<open>\<open>Dataset.resize(n, axis=0)\<close>: cut the dataset at \<open>n\<close> cells, or extend it with fill values.\<close>

definition resize :: "nat \<Rightarrow> 'a \<Rightarrow> 'a list \<Rightarrow> 'a list" where
  "resize n fill xs = take n xs @ replicate (n - length xs) fill"

text \<open>
  \<open>int(n_sequences * 1.1)\<close>. The double \<open>1.1\<close> lies above \<open>11/10\<close> by less than \<open>10^-16\<close>, so
  for every capacity a store can reach the truncated product is \<open>\<lfloor>11 n / 10\<rfloor>\<close>.
\<close>

definition grow :: "nat \<Rightarrow> nat" where
  "grow n = (n * 11) div 10"

text \<open>
  The state before the loop of the first subset (lines 335--350): \<open>Y\<close> and \<open>Z\<close> are
  created with 1000 cells, \<open>X\<close> and \<open>prev_y\<close> are unbound.
\<close>

definition data_init :: "('x, 'l) locals" where
  "data_init =
     \<lparr>n_sequences = 1000, dsX = None, dsY = replicate 1000 None, dsZ = replicate 1000 0,
      num_i = 0, turn_z = 0, prev_y = None\<rparr>"

text \<open>
  The same lines for a subset that follows another one, whose local variables are \<open>s\<close>:
  \<open>n_sequences\<close>, \<open>Y\<close>, \<open>Z\<close>, \<open>i\<close> and \<open>z\<close> are assigned anew, while \<open>X\<close> and \<open>prev_y\<close> keep
  what the previous subset bound them to. \<open>X\<close> is then the dataset of the previous store,
  whose file is closed.
\<close>

definition data_enter :: "('x, 'l) locals \<Rightarrow> ('x, 'l) locals" where
  "data_enter s =
     s\<lparr>n_sequences := 1000, dsY := replicate 1000 None, dsZ := replicate 1000 0,
       num_i := 0, turn_z := 0\<rparr>"

text \<open>Lines 368--382: on the first sequence, create \<open>X\<close> and remember the label.\<close>

definition create_X :: "('x, 'l) locals \<Rightarrow> 'l \<Rightarrow> ('x, 'l) locals" where
  "create_X s y =
     (if num_i s = 0
      then s\<lparr>dsX := Some (replicate (n_sequences s) None), prev_y := Some y\<rparr>
      else s)"

text \<open>Lines 385--389: increase the size of the datasets when full.\<close>

definition grow_when_full :: "('x, 'l) locals \<Rightarrow> error + ('x, 'l) locals" where
  "grow_when_full s =
     (if num_i s = n_sequences s
      then (case dsX s of
              None \<Rightarrow> Inl UnboundLocalError
            | Some xs \<Rightarrow>
                let n = grow (n_sequences s)
                in Inr (s\<lparr>n_sequences := n,
                          dsX := Some (resize n None xs),
                          dsY := resize n None (dsY s),
                          dsZ := resize n 0 (dsZ s)\<rparr>))
      else Inr s)"

text \<open>
  Lines 392--405: save the sequence and its label, increment \<open>z\<close> when the label changed,
  save \<open>z\<close>, increment \<open>i\<close>. Writing a cell beyond the extent of a dataset raises.
\<close>

definition save_sequence :: "('x, 'l) locals \<Rightarrow> 'x \<Rightarrow> 'l \<Rightarrow> error + ('x, 'l) locals" where
  "save_sequence s x y =
     (case dsX s of
        None \<Rightarrow> Inl UnboundLocalError
      | Some xs \<Rightarrow>
          if \<not> num_i s < length xs then Inl IndexError
          else if \<not> num_i s < length (dsY s) then Inl IndexError
          else (case prev_y s of
                  None \<Rightarrow> Inl UnboundLocalError
                | Some p \<Rightarrow>
                    let s1 = s\<lparr>dsX := Some (xs[num_i s := Some x]),
                                dsY := (dsY s)[num_i s := Some y]\<rparr>;
                        s2 = (if y \<noteq> p
                              then s1\<lparr>prev_y := Some y, turn_z := turn_z s1 + 1\<rparr>
                              else s1)
                    in if \<not> num_i s2 < length (dsZ s2) then Inl IndexError
                       else Inr (s2\<lparr>dsZ := (dsZ s2)[num_i s2 := turn_z s2],
                                     num_i := num_i s2 + 1\<rparr>)))"

text \<open>One pass through the body of the inner loop, for the sequence \<open>x\<close> with label \<open>y\<close>.\<close>

definition data_append :: "('x, 'l) locals \<Rightarrow> 'x \<times> 'l \<Rightarrow> error + ('x, 'l) locals" where
  "data_append s xy =
     (case grow_when_full (create_X s (snd xy)) of
        Inl e \<Rightarrow> Inl e
      | Inr s' \<Rightarrow> save_sequence s' (fst xy) (snd xy))"

text \<open>The inner loop over the labelled sequences \<open>(x, y)\<close> of one file.\<close>

fun data_loop :: "('x, 'l) locals \<Rightarrow> ('x \<times> 'l) list \<Rightarrow> error + ('x, 'l) locals" where
  "data_loop s [] = Inr s"
| "data_loop s (xy # rest) =
     (case data_append s xy of Inl e \<Rightarrow> Inl e | Inr s' \<Rightarrow> data_loop s' rest)"

text \<open>
  The outer loop over the files of a subset. A file is given by the labelled sequences
  that feature extraction and the segment generator (both collaborators) yield for it.
\<close>

fun data_files :: "('x, 'l) locals \<Rightarrow> ('x \<times> 'l) list list \<Rightarrow> error + ('x, 'l) locals" where
  "data_files s [] = Inr s"
| "data_files s (item # items) =
     (case data_loop s item of Inl e \<Rightarrow> Inl e | Inr s' \<Rightarrow> data_files s' items)"

text \<open>
  Lines 407--409: the three datasets are resized to \<open>i - 1\<close> cells. When no sequence was
  saved, \<open>X\<close> is what it was before the loop: unbound in the first subset, and the dataset
  of the previous store otherwise. For that dataset, of a closed file, and for the extent
  \<open>-1\<close>, the storage library refuses \<open>X.resize(-1, axis=0)\<close>.
\<close>

definition data_truncate :: "('x, 'l) locals \<Rightarrow> error + ('x, 'l) locals" where
  "data_truncate s =
     (case dsX s of
        None \<Rightarrow> Inl UnboundLocalError
      | Some xs \<Rightarrow>
          if num_i s = 0 then Inl StorageError
          else let n = num_i s - 1
               in Inr (s\<lparr>dsX := Some (resize n None xs),
                         dsY := resize n None (dsY s),
                         dsZ := resize n 0 (dsZ s)\<rparr>))"

text \<open>
  The store as it is read back: the three datasets \<open>X\<close>, \<open>y\<close> and \<open>z\<close> of the file.
\<close>

record ('c, 'l) store =
  h5_X :: "'c list"
  h5_y :: "'l list"
  h5_z :: "int list"

text \<open>
  Lines 412--421: feature normalization. Unpacking \<open>zip(*(...))\<close> into three names raises
  \<open>ValueError\<close> when \<open>X\<close> has no row. The statistics \<open>mu\<close> and \<open>sigma\<close> themselves are
  floating-point attributes and are not part of the model.
\<close>

definition data_normalization :: "('x, 'l) locals \<Rightarrow> error + ('x option, 'l option) store" where
  "data_normalization s =
     (case dsX s of
        None \<Rightarrow> Inl UnboundLocalError
      | Some xs \<Rightarrow>
          if xs = [] then Inl ValueError
          else Inr \<lparr>h5_X = xs, h5_y = dsY s, h5_z = dsZ s\<rparr>)"

text \<open>
  What the protocol offers for a subset: the subset is not implemented
  (\<open>NotImplementedError\<close>, the subset is skipped), or it yields files.
\<close>

datatype 'f subset = NotImplemented | Files "'f list"

text \<open>
  Lines 317--421, one subset, entered with the local variables \<open>s\<close> that the code before
  it has left. \<open>next(file_generator)\<close> on a subset without files raises \<open>StopIteration\<close>,
  which is not caught. The result is the local variables at the end, with \<open>None\<close> for a
  skipped subset and the store written otherwise.
\<close>

definition data_subset ::
  "('x, 'l) locals \<Rightarrow> ('x \<times> 'l) list subset \<Rightarrow>
     error + (('x, 'l) locals \<times> ('x option, 'l option) store option)" where
  "data_subset s sub =
     (case sub of
        NotImplemented \<Rightarrow> Inr (s, None)
      | Files items \<Rightarrow>
          if items = [] then Inl StopIteration
          else (case data_files (data_enter s) items of
                  Inl e \<Rightarrow> Inl e
                | Inr s1 \<Rightarrow>
                    (case data_truncate s1 of
                       Inl e \<Rightarrow> Inl e
                     | Inr t \<Rightarrow>
                         (case data_normalization t of
                            Inl e \<Rightarrow> Inl e
                          | Inr st \<Rightarrow> Inr (t, Some st)))))"

text \<open>
  Line 317, the loop over the subsets \<open>train\<close>, \<open>development\<close> and \<open>test\<close>, given by what the
  protocol offers for each. The result lists what was written for each subset.
\<close>

fun data_subsets ::
  "('x, 'l) locals \<Rightarrow> ('x \<times> 'l) list subset list \<Rightarrow>
     error + ('x option, 'l option) store option list" where
  "data_subsets s [] = Inr []"
| "data_subsets s (sub # subs) =
     (case data_subset s sub of
        Inl e \<Rightarrow> Inl e
      | Inr tst \<Rightarrow>
          (case data_subsets (fst tst) subs of
             Inl e \<Rightarrow> Inl e
           | Inr sts \<Rightarrow> Inr (snd tst # sts)))"

definition data :: "('x \<times> 'l) list subset list \<Rightarrow> error + ('x option, 'l option) store option list"
  where "data subs = data_subsets data_init subs"

text \<open>
  The state the loop is in after it has saved the labelled sequences \<open>saved\<close>, in this
  order: the invariant of the loop.
\<close>

definition written :: "('x \<times> 'l) list \<Rightarrow> ('x, 'l) locals \<Rightarrow> bool" where
  "written saved s \<longleftrightarrow>
     num_i s = length saved \<and> 10 \<le> n_sequences s \<and> length saved \<le> n_sequences s \<and>
     length (dsY s) = n_sequences s \<and> length (dsZ s) = n_sequences s \<and>
     take (length saved) (dsY s) = map (Some \<circ> snd) saved \<and>
     (if saved = [] then turn_z s = 0
      else (\<exists>xs. dsX s = Some xs \<and> length xs = n_sequences s \<and>
                 take (length saved) xs = map (Some \<circ> fst) saved) \<and>
           prev_y s = Some (snd (last saved)) \<and>
           dsZ s ! (length saved - 1) = turn_z s \<and> dsZ s ! 0 = 0) \<and>
     (\<forall>k. Suc k < length saved \<longrightarrow>
          dsZ s ! Suc k = dsZ s ! k + (if snd (saved ! Suc k) \<noteq> snd (saved ! k) then 1 else 0))"

section \<open>"apply" mode: the best epoch of the validation log\<close>

text \<open>
  \<open>SpeakerEmbedding.apply\<close>, lines 679--683. The validation log is the list of its rows
  \<open>(epoch, value)\<close> in file order. \<open>np.loadtxt\<close> returns a two-dimensional array for two rows
  or more, a one-dimensional array of two numbers for a single row, and an empty array for
  an empty file. Epochs are whole numbers; values are compared only, so they are rationals.
\<close>

text \<open>
  \<open>SortedDict.__setitem__\<close>: the dictionary is the list of its items in ascending key
  order; storing under a key that is present replaces the value.
\<close>

fun sd_setitem :: "'k::linorder \<Rightarrow> 'v \<Rightarrow> ('k \<times> 'v) list \<Rightarrow> ('k \<times> 'v) list" where
  "sd_setitem k v [] = [(k, v)]"
| "sd_setitem k v ((k', v') # kvs) =
     (if k < k' then (k, v) # (k', v') # kvs
      else if k = k' then (k, v) # kvs
      else (k', v') # sd_setitem k v kvs)"

text \<open>
  \<open>SortedDict(np.loadtxt(fp))\<close>: the rows are stored one after the other, as \<open>dict.update\<close>
  does with an iterable of pairs. The single row is an array of two floats, none of which
  is a pair: \<open>TypeError\<close>.
\<close>

definition SortedDict :: "('k::linorder \<times> 'v) list \<Rightarrow> error + ('k \<times> 'v) list" where
  "SortedDict rows =
     (if length rows = 1 then Inl TypeError
      else Inr (foldl (\<lambda>d row. sd_setitem (fst row) (snd row) d) [] rows))"

text \<open>\<open>np.argmin\<close>: the first index of the least value; \<open>ValueError\<close> on an empty array.\<close>

fun np_argmin :: "'v::linorder list \<Rightarrow> error + nat" where
  "np_argmin [] = Inl ValueError"
| "np_argmin [v] = Inr 0"
| "np_argmin (v # w # vs) =
     (case np_argmin (w # vs) of
        Inl e \<Rightarrow> Inl e
      | Inr j \<Rightarrow> if v \<le> (w # vs) ! j then Inr 0 else Inr (Suc j))"

text \<open>\<open>best_epoch = int(eers.iloc[np.argmin(eers.values())])\<close>\<close>

definition best_epoch :: "(int \<times> rat) list \<Rightarrow> error + int" where
  "best_epoch rows =
     (case SortedDict rows of
        Inl e \<Rightarrow> Inl e
      | Inr eers \<Rightarrow>
          (case np_argmin (map snd eers) of
             Inl e \<Rightarrow> Inl e
           | Inr j \<Rightarrow> Inr (fst (eers ! j))))"

text \<open>
  The sibling path, "compare" mode (\<open>main\<close>, lines 825--827):
  \<open>eer.loc[~eer.index.duplicated(keep='first')]\<close>. \<open>duplicated\<close> marks a row whose epoch
  occurred in an earlier row.
\<close>

fun duplicated :: "'k list \<Rightarrow> 'k list \<Rightarrow> bool list" where
  "duplicated seen [] = []"
| "duplicated seen (k # ks) = (k \<in> set seen) # duplicated (k # seen) ks"

definition compare_eer :: "('k \<times> 'v) list \<Rightarrow> ('k \<times> 'v) list" where
  "compare_eer rows =
     map snd (filter (\<lambda>dr. \<not> fst dr) (zip (duplicated [] (map fst rows)) rows))"

section \<open>"validate" mode: internal embeddings in batches\<close>

text \<open>
  \<open>_validate_epoch_default\<close>, lines 650--663. The network is a function \<open>f\<close> of one
  sequence; in test phase \<open>embed\<close> applies it to every sequence of a batch.
\<close>

definition embed :: "('x \<Rightarrow> 'e) \<Rightarrow> 'x list \<Rightarrow> 'e list" where
  "embed f XX = map f XX"

text \<open>\<open>np.arange(0, stop, step)\<close> for a step that is not negative.\<close>

definition np_arange :: "nat \<Rightarrow> nat \<Rightarrow> error + nat list" where
  "np_arange stop step =
     (if step = 0 then Inl ZeroDivisionError
      else Inr (map (\<lambda>k. k * step) [0..<(stop + step - 1) div step]))"

text \<open>\<open>pairwise\<close> of \<open>pyannote.core.util\<close>: consecutive pairs.\<close>

definition pairwise :: "'a list \<Rightarrow> ('a \<times> 'a) list" where
  "pairwise xs = zip xs (tl xs)"

text \<open>The slice \<open>XX[i:j]\<close> for \<open>0 \<le> i\<close> and \<open>0 \<le> j\<close>.\<close>

definition slice :: "nat \<Rightarrow> nat \<Rightarrow> 'a list \<Rightarrow> 'a list" where
  "slice i j xs = take (j - i) (drop i xs)"

text \<open>\<open>np.vstack\<close> of arrays whose first axis is the batch: \<open>ValueError\<close> without any array.\<close>

definition np_vstack :: "'a list list \<Rightarrow> error + 'a list" where
  "np_vstack arrays = (if arrays = [] then Inl ValueError else Inr (concat arrays))"

text \<open>Lines 658--663, with the batch size as a parameter.\<close>

definition embed_batches :: "nat \<Rightarrow> ('x \<Rightarrow> 'e) \<Rightarrow> 'x list \<Rightarrow> error + 'e list" where
  "embed_batches batch_size f XX =
     (case np_arange (length XX) batch_size of
        Inl e \<Rightarrow> Inl e
      | Inr boundaries \<Rightarrow>
          let batches = (if length XX mod batch_size \<noteq> 0
                         then boundaries @ [length XX] else boundaries)
          in np_vstack (map (\<lambda>ij. embed f (slice (fst ij) (snd ij) XX)) (pairwise batches)))"

text \<open>Line 629: \<open>batch_size = 2048\<close>.\<close>

definition internal_embeddings :: "('x \<Rightarrow> 'e) \<Rightarrow> 'x list \<Rightarrow> error + 'e list" where
  "internal_embeddings f XX = embed_batches 2048 f XX"

section \<open>"apply" mode: one dump per file\<close>

text \<open>
  \<open>SpeakerEmbedding.apply\<close>, lines 711--733. \<open>uid\<close> is \<open>get_unique_identifier\<close> and \<open>emb\<close> is
  \<open>sequence_embedding.apply\<close>, both collaborators. The state is the set \<open>processed_uris\<close>
  and the list of the calls of \<open>precomputed.dump\<close> made so far, in order. Dumps are written
  to disk, so they remain when a later subset raises: the result is the state together
  with the exception that ended the run, if any.
\<close>

type_synonym ('u, 'f, 'e) apply_state = "'u set \<times> ('f \<times> 'e) list"

fun apply_files ::
  "('f \<Rightarrow> 'u) \<Rightarrow> ('f \<Rightarrow> 'e) \<Rightarrow> ('u, 'f, 'e) apply_state \<Rightarrow> 'f list \<Rightarrow> ('u, 'f, 'e) apply_state"
where
  "apply_files uid emb st [] = st"
| "apply_files uid emb st (current_file # rest) =
     (if uid current_file \<in> fst st then apply_files uid emb st rest
      else apply_files uid emb
             (insert (uid current_file) (fst st), snd st @ [(current_file, emb current_file)])
             rest)"

fun apply_subsets ::
  "('f \<Rightarrow> 'u) \<Rightarrow> ('f \<Rightarrow> 'e) \<Rightarrow> ('u, 'f, 'e) apply_state \<Rightarrow> 'f subset list \<Rightarrow>
     ('u, 'f, 'e) apply_state \<times> error option"
where
  "apply_subsets uid emb st [] = (st, None)"
| "apply_subsets uid emb st (NotImplemented # rest) = apply_subsets uid emb st rest"
| "apply_subsets uid emb st (Files fs # rest) =
     (if fs = [] then (st, Some StopIteration)
      else apply_subsets uid emb (apply_files uid emb st fs) rest)"

text \<open>The subsets are visited in the order development, test, train.\<close>

definition apply_dump ::
  "('f \<Rightarrow> 'u) \<Rightarrow> ('f \<Rightarrow> 'e) \<Rightarrow> 'f subset \<Rightarrow> 'f subset \<Rightarrow> 'f subset \<Rightarrow>
     ('u, 'f, 'e) apply_state \<times> error option" where
  "apply_dump uid emb development test train =
     apply_subsets uid emb ({}, []) [development, test, train]"

text \<open>The files a protocol enumerates for a subset.\<close>

fun subset_files :: "'f subset \<Rightarrow> 'f list" where
  "subset_files NotImplemented = []"
| "subset_files (Files fs) = fs"

text \<open>
  The invariant of the loops of "apply" mode: \<open>processed_uris\<close> holds the identifiers of
  the files dumped so far, and no two dumps share an identifier.
\<close>

definition dumped_once :: "('f \<Rightarrow> 'u) \<Rightarrow> ('u, 'f, 'e) apply_state \<Rightarrow> bool" where
  "dumped_once uid st \<longleftrightarrow>
     fst st = uid ` fst ` set (snd st) \<and> distinct (map (uid \<circ> fst) (snd st))"

section \<open>Domain classification: validation\<close>
















section \<open>"validate" mode: the balanced sample\<close>






















section \<open>"validate" mode, verification track: the caches of averaged embeddings\<close>

text \<open>
  \<open>_validate_epoch_verification\<close>, lines 569--614. An enrolment carries its model
  identifier, the unique identifier of its file (\<open>get_unique_identifier\<close>) and the time
  span \<open>enrol_with\<close>; a trial carries the same with \<open>try_with\<close>, and its \<open>reference\<close>.
\<close>

record ('m, 'u, 's) enrolment =
  e_model_id :: 'm
  e_uri :: 'u
  enrol_with :: 's

record ('m, 'u, 's, 'r) trial =
  t_model_id :: 'm
  t_uri :: 'u
  try_with :: 's
  reference :: 'r

text \<open>
  Two collaborators are parameters. \<open>hsh\<close> is the built-in \<open>hash\<close> of Python on the pair of
  a unique identifier and a time span. \<open>avg uri span\<close> is the averaged embedding
  \<open>np.mean(embedding.crop(span, ...), axis=0, keepdims=True)\<close> of
  \<open>sequence_embedding.apply\<close> on the file: the extraction, a function of file and span.

  Lines 569--584, one enrolment: \<open>enrolment_models[model_id]\<close> and
  \<open>enrolment_khashes[h]\<close> are assigned. The state is the pair of the two dictionaries.
\<close>

definition enrol ::
  "('u \<times> 's \<Rightarrow> 'h) \<Rightarrow> ('u \<Rightarrow> 's \<Rightarrow> 'v) \<Rightarrow> ('m \<rightharpoonup> 'v) \<times> ('h \<rightharpoonup> 'm) \<Rightarrow>
     ('m, 'u, 's) enrolment \<Rightarrow> ('m \<rightharpoonup> 'v) \<times> ('h \<rightharpoonup> 'm)" where
  "enrol hsh avg caches e =
     ((fst caches)(e_model_id e \<mapsto> avg (e_uri e) (enrol_with e)),
      (snd caches)(hsh (e_uri e, enrol_with e) \<mapsto> e_model_id e))"

definition enrol_all ::
  "('u \<times> 's \<Rightarrow> 'h) \<Rightarrow> ('u \<Rightarrow> 's \<Rightarrow> 'v) \<Rightarrow> ('m, 'u, 's) enrolment list \<Rightarrow>
     ('m \<rightharpoonup> 'v) \<times> ('h \<rightharpoonup> 'm)" where
  "enrol_all hsh avg enrolments = foldl (enrol hsh avg) (Map.empty, Map.empty) enrolments"

text \<open>Where the model of a trial comes from: the three branches of lines 596--609.\<close>

datatype source = Enrolment_cache | Trial_cache | Extracted

text \<open>
  Lines 592--609, the model of one trial, with the dictionary \<open>trial_models\<close> as it is
  afterwards. A missing key of a dictionary raises \<open>KeyError\<close>.
\<close>

definition trial_model ::
  "('u \<times> 's \<Rightarrow> 'h) \<Rightarrow> ('u \<Rightarrow> 's \<Rightarrow> 'v) \<Rightarrow> ('m \<rightharpoonup> 'v) \<Rightarrow> ('h \<rightharpoonup> 'm) \<Rightarrow> ('h \<rightharpoonup> 'v) \<Rightarrow>
     ('m, 'u, 's, 'r) trial \<Rightarrow> error + (source \<times> 'v \<times> ('h \<rightharpoonup> 'v))" where
  "trial_model hsh avg enrolment_models enrolment_khashes trial_models t =
     (let h = hsh (t_uri t, try_with t)
      in case enrolment_khashes h of
           Some m \<Rightarrow>
             (case enrolment_models m of
                None \<Rightarrow> Inl KeyError
              | Some v \<Rightarrow> Inr (Enrolment_cache, v, trial_models))
         | None \<Rightarrow>
             (case trial_models h of
                Some v \<Rightarrow> Inr (Trial_cache, v, trial_models)
              | None \<Rightarrow>
                  let v = avg (t_uri t) (try_with t)
                  in Inr (Extracted, v, trial_models(h \<mapsto> v))))"

text \<open>
  The loop over the trials, lines 589--614. For each trial the result keeps where its model
  came from, the model, the model of the target (\<open>enrolment_models[model_id]\<close>) and the
  reference. The distance between the two models and the equal error rate are computed by
  collaborators over floating-point numbers and are not part of the model.
\<close>

fun run_trials ::
  "('u \<times> 's \<Rightarrow> 'h) \<Rightarrow> ('u \<Rightarrow> 's \<Rightarrow> 'v) \<Rightarrow> ('m \<rightharpoonup> 'v) \<Rightarrow> ('h \<rightharpoonup> 'm) \<Rightarrow> ('h \<rightharpoonup> 'v) \<Rightarrow>
     ('m, 'u, 's, 'r) trial list \<Rightarrow> error + (source \<times> 'v \<times> 'v \<times> 'r) list" where
  "run_trials hsh avg enrolment_models enrolment_khashes trial_models [] = Inr []"
| "run_trials hsh avg enrolment_models enrolment_khashes trial_models (t # ts) =
     (case trial_model hsh avg enrolment_models enrolment_khashes trial_models t of
        Inl e \<Rightarrow> Inl e
      | Inr smt \<Rightarrow>
          (case enrolment_models (t_model_id t) of
             None \<Rightarrow> Inl KeyError
           | Some target \<Rightarrow>
               (case run_trials hsh avg enrolment_models enrolment_khashes (snd (snd smt)) ts of
                  Inl e \<Rightarrow> Inl e
                | Inr out \<Rightarrow> Inr ((fst smt, fst (snd smt), target, reference t) # out))))"

definition validate_epoch_verification ::
  "('u \<times> 's \<Rightarrow> 'h) \<Rightarrow> ('u \<Rightarrow> 's \<Rightarrow> 'v) \<Rightarrow> ('m, 'u, 's) enrolment list \<Rightarrow>
     ('m, 'u, 's, 'r) trial list \<Rightarrow> error + (source \<times> 'v \<times> 'v \<times> 'r) list" where
  "validate_epoch_verification hsh avg enrolments trials =
     (let caches = enrol_all hsh avg enrolments
      in run_trials hsh avg (fst caches) (snd caches) Map.empty trials)"

text \<open>The pair of file and time span of an enrolment and of a trial.\<close>

definition e_key :: "('m, 'u, 's) enrolment \<Rightarrow> 'u \<times> 's" where
  "e_key e = (e_uri e, enrol_with e)"

definition t_key :: "('m, 'u, 's, 'r) trial \<Rightarrow> 'u \<times> 's" where
  "t_key t = (t_uri t, try_with t)"

section \<open>"data" mode: the name of the data directory\<close>

text \<open>
  \<open>_params_to_directory\<close> and \<open>_directory_to_params\<close> (lines 257--294) rely on three
  built-ins of Python: the format specification \<open>g\<close>, \<open>str.split\<close> and \<open>float\<close>. They are
  modelled on the rational numbers: a parameter is the number that its decimal notation
  denotes, \<open>format_g\<close> rounds it to six significant digits as \<open>'{:g}'.format\<close> does, and
  \<open>py_float\<close> reads a decimal notation back.
\<close>

subsection \<open>The format specification g\<close>









definition strip_zeros :: "string \<Rightarrow> string" where
  "strip_zeros s = rev (dropWhile (\<lambda>c. c = CHR ''0'') (rev s))"



subsection \<open>The built-in float\<close>

definition is_digit :: "char \<Rightarrow> bool" where
  "is_digit c \<longleftrightarrow> c \<in> set ''0123456789''"








subsection \<open>Encoding and decoding\<close>





subsection \<open>Numbers with at most six significant digits\<close>




section \<open>Verified properties\<close>

subsection \<open>"data" mode\<close>

lemma length_resize [simp]: "length (resize n f xs) = n"
  by (simp add: resize_def)

lemma take_resize: "k \<le> length xs \<Longrightarrow> k \<le> n \<Longrightarrow> take k (resize n f xs) = take k xs"
  by (simp add: resize_def min_def)

lemma nth_resize: "k < length xs \<Longrightarrow> k < n \<Longrightarrow> resize n f xs ! k = xs ! k"
  by (simp add: resize_def nth_append)

lemma grow_gt: "10 \<le> n \<Longrightarrow> n < grow n"
  by (simp add: grow_def)

lemma data_enter_init: "data_enter data_init = data_init"
  by (simp add: data_enter_def data_init_def)

lemma written_enter: "written [] (data_enter s)"
  by (simp add: written_def data_enter_def)

lemma written_first:
  assumes "written [] s"
  shows "\<exists>s'. data_append s (x, y) = Inr s' \<and> written [(x, y)] s'"
  using assms
  by (auto simp: written_def data_append_def create_X_def grow_when_full_def save_sequence_def
        Let_def take_Suc_conv_app_nth)

lemma grow_ready:
  assumes "written saved s" "saved \<noteq> []"
  shows "\<exists>s1. grow_when_full s = Inr s1 \<and> written saved s1 \<and> length saved < n_sequences s1"
proof (cases "num_i s = n_sequences s")
  case False
  with assms show ?thesis
    by (auto simp: grow_when_full_def written_def)
next
  case True
  from assms obtain xs where xs: "dsX s = Some xs" "length xs = n_sequences s"
    "take (length saved) xs = map (Some \<circ> fst) saved"
    by (auto simp: written_def)
  have g: "n_sequences s < grow (n_sequences s)"
    using assms(1) by (simp add: written_def grow_gt)
  have n: "length saved = n_sequences s"
    using assms(1) True by (simp add: written_def)
  show ?thesis
    using assms xs g n True
    by (auto simp: grow_when_full_def written_def Let_def take_resize nth_resize)
qed

lemma save_ready:
  assumes "written saved s" "saved \<noteq> []" "length saved < n_sequences s"
  shows "\<exists>s'. save_sequence s x y = Inr s' \<and> written (saved @ [(x, y)]) s'"
proof -
  from assms obtain xs where xs: "dsX s = Some xs" "length xs = n_sequences s"
    "take (length saved) xs = map (Some \<circ> fst) saved"
    by (auto simp: written_def)
  show ?thesis
    using assms xs
    apply (simp add: save_sequence_def written_def Let_def take_Suc_conv_app_nth)
    apply (auto simp: nth_append nth_list_update less_Suc_eq last_conv_nth)
    done
qed

lemma written_next:
  assumes "written saved s" "saved \<noteq> []"
  shows "\<exists>s'. data_append s (x, y) = Inr s' \<and> written (saved @ [(x, y)]) s'"
proof -
  have c: "create_X s y = s"
    using assms by (simp add: create_X_def written_def)
  from grow_ready [OF assms] obtain s1 where
    "grow_when_full s = Inr s1" "written saved s1" "length saved < n_sequences s1" by blast
  with save_ready [OF this(2) assms(2) this(3), of x y] c show ?thesis
    by (auto simp: data_append_def)
qed

lemma written_append:
  assumes "written saved s"
  shows "\<exists>s'. data_append s xy = Inr s' \<and> written (saved @ [xy]) s'"
  using written_first [of s "fst xy" "snd xy"] written_next [of saved s "fst xy" "snd xy"] assms
  by (cases "saved = []") auto

lemma written_loop:
  "written saved s \<Longrightarrow> \<exists>s'. data_loop s item = Inr s' \<and> written (saved @ item) s'"
proof (induction item arbitrary: saved s)
  case Nil
  then show ?case by simp
next
  case (Cons xy item)
  from written_append [OF Cons.prems, of xy] obtain s1 where
    s1: "data_append s xy = Inr s1" "written (saved @ [xy]) s1" by blast
  from Cons.IH [OF s1(2)] s1(1) show ?case by auto
qed

lemma written_files:
  "written saved s \<Longrightarrow> \<exists>s'. data_files s items = Inr s' \<and> written (saved @ concat items) s'"
proof (induction items arbitrary: saved s)
  case Nil
  then show ?case by simp
next
  case (Cons item items)
  from written_loop [OF Cons.prems, of item] obtain s1 where
    s1: "data_loop s item = Inr s1" "written (saved @ item) s1" by blast
  from Cons.IH [OF s1(2)] s1(1) show ?case by auto
qed


lemma data_files_written:
  "\<exists>t. data_files (data_enter s) items = Inr t \<and> written (concat items) t"
  using written_files [OF written_enter, of s items] by simp

lemma data_files_nothing:
  "concat items = [] \<Longrightarrow> data_files s items = Inr s"
  by (induction items) auto

lemma sorted_take_steps:
  assumes "n \<le> length zs" "\<forall>k. Suc k < n \<longrightarrow> zs ! k \<le> (zs ! Suc k :: int)"
  shows "sorted (take n zs)"
  using assms by (simp add: sorted_iff_nth_Suc)

text \<open>
  Claim C5. In the first subset and in every later one, whatever the local variables \<open>s\<close>
  left by the code before it and whatever labelled sequences the files of the subset
  yield, the loop saves all of them without raising, the labels land in \<open>Y\<close> in write
  order, and the group identifiers written to \<open>Z\<close> are non-decreasing, start at \<open>0\<close> for the
  first sequence, and grow by exactly one from a sequence to the next when the two labels
  differ, and not at all otherwise.
\<close>

theorem group_id_follows_label_changes:
  "\<exists>t. data_files (data_enter s) items = Inr t \<and>
       num_i t = length (concat items) \<and>
       take (num_i t) (dsY t) = map (Some \<circ> snd) (concat items) \<and>
       sorted (take (num_i t) (dsZ t)) \<and>
       (concat items \<noteq> [] \<longrightarrow> dsZ t ! 0 = 0) \<and>
       (\<forall>k. Suc k < length (concat items) \<longrightarrow>
            dsZ t ! Suc k =
              dsZ t ! k + (if snd (concat items ! Suc k) \<noteq> snd (concat items ! k) then 1 else 0))"
proof -
  from data_files_written [of s items] obtain t where
    t: "data_files (data_enter s) items = Inr t" "written (concat items) t" by blast
  have steps: "\<forall>k. Suc k < length (concat items) \<longrightarrow>
       dsZ t ! Suc k =
         dsZ t ! k + (if snd (concat items ! Suc k) \<noteq> snd (concat items ! k) then 1 else 0)"
    using t(2) by (simp add: written_def)
  have "sorted (take (num_i t) (dsZ t))"
  proof (rule sorted_take_steps)
    show "num_i t \<le> length (dsZ t)" using t(2) by (simp add: written_def)
    show "\<forall>k. Suc k < num_i t \<longrightarrow> dsZ t ! k \<le> dsZ t ! Suc k"
      using t(2) steps by (simp add: written_def)
  qed
  moreover have "num_i t = length (concat items)"
    "take (num_i t) (dsY t) = map (Some \<circ> snd) (concat items)"
    "concat items \<noteq> [] \<longrightarrow> dsZ t ! 0 = 0"
    using t(2) by (auto simp: written_def)
  ultimately show ?thesis using t(1) steps by blast
qed

text \<open>Two files, three sequences, labels A, A, B: the group identifiers are 0, 0, 1.\<close>

theorem group_id_follows_label_changes_witness:
  "\<exists>s. data_files data_init [[(1::nat, ''A''), (2, ''A'')], [(3, ''B'')]] = Inr s \<and>
       dsZ s ! 0 = 0 \<and> dsZ s ! 1 = 0 \<and> dsZ s ! 2 = 1"
proof -
  from group_id_follows_label_changes [of data_init "[[(1::nat, ''A''), (2, ''A'')], [(3, ''B'')]]"]
  obtain s where s: "data_files data_init [[(1::nat, ''A''), (2, ''A'')], [(3, ''B'')]] = Inr s"
    "dsZ s ! 0 = 0"
    "\<forall>k. Suc k < 3 \<longrightarrow> dsZ s ! Suc k =
       dsZ s ! k + (if snd ([(1::nat, ''A''), (2, ''A''), (3, ''B'')] ! Suc k) \<noteq>
                       snd ([(1::nat, ''A''), (2, ''A''), (3, ''B'')] ! k) then 1 else 0)"
    by (auto simp: data_enter_init)
  from s(3) have "dsZ s ! Suc 0 = dsZ s ! 0 + 0" by (drule_tac x = 0 in spec) simp
  moreover from s(3) have "dsZ s ! Suc (Suc 0) = dsZ s ! Suc 0 + 1"
    by (drule_tac x = "Suc 0" in spec) simp
  ultimately show ?thesis using s(1,2) by (auto simp: numeral_2_eq_2)
qed

lemma truncate_written:
  assumes "written saved s" "saved \<noteq> []"
  shows "\<exists>t. data_truncate s = Inr t \<and>
           dsX t = Some (map (Some \<circ> fst) (butlast saved)) \<and>
           dsY t = map (Some \<circ> snd) (butlast saved) \<and>
           dsZ t = take (length saved - 1) (dsZ s)"
proof -
  from assms obtain xs where xs: "dsX s = Some xs" "length xs = n_sequences s"
    "take (length saved) xs = map (Some \<circ> fst) saved"
    by (auto simp: written_def)
  have le: "length saved \<le> n_sequences s" "num_i s = length saved"
    "length (dsY s) = n_sequences s" "length (dsZ s) = n_sequences s"
    "take (length saved) (dsY s) = map (Some \<circ> snd) saved"
    using assms(1) by (simp_all add: written_def)
  have "take (length saved - 1) xs = take (length saved - 1) (take (length saved) xs)"
    by (simp add: min_def)
  then have X: "resize (length saved - 1) None xs = map (Some \<circ> fst) (butlast saved)"
    using xs le by (simp add: resize_def butlast_conv_take take_map)
  have "take (length saved - 1) (dsY s) = take (length saved - 1) (take (length saved) (dsY s))"
    by (simp add: min_def)
  then have Y: "resize (length saved - 1) None (dsY s) = map (Some \<circ> snd) (butlast saved)"
    using le by (simp add: resize_def butlast_conv_take take_map)
  have Z: "resize (length saved - 1) 0 (dsZ s) = take (length saved - 1) (dsZ s)"
    using le by (simp add: resize_def)
  show ?thesis using xs le assms(2) X Y Z
    by (simp add: data_truncate_def Let_def)
qed

lemma data_subset_written:
  assumes "2 \<le> length (concat items)"
  shows "\<exists>t z. data_subset s (Files items) =
           Inr (t, Some \<lparr>h5_X = map (Some \<circ> fst) (butlast (concat items)),
                           h5_y = map (Some \<circ> snd) (butlast (concat items)),
                           h5_z = z\<rparr>) \<and>
           dsX t \<noteq> None \<and> length z = length (concat items) - 1 \<and> z ! 0 = 0"
proof -
  have c: "concat items \<noteq> []"
  proof
    assume "concat items = []"
    then have "length (concat items) = 0" by (simp only: list.size)
    with assms show False by simp
  qed
  from data_files_written [of s items] obtain s1 where
    s1: "data_files (data_enter s) items = Inr s1" "written (concat items) s1" by blast
  from truncate_written [OF s1(2) c] obtain t where
    t: "data_truncate s1 = Inr t"
      "dsX t = Some (map (Some \<circ> fst) (butlast (concat items)))"
      "dsY t = map (Some \<circ> snd) (butlast (concat items))"
      "dsZ t = take (length (concat items) - 1) (dsZ s1)" by blast
  have l: "length (concat items) \<le> length (dsZ s1)" "dsZ s1 ! 0 = 0"
    using s1(2) c by (auto simp: written_def)
  have ne: "items \<noteq> []" using c by auto
  have b: "butlast (concat items) \<noteq> []"
    using assms by (cases "concat items" rule: rev_cases) auto
  have n: "data_normalization t =
      Inr \<lparr>h5_X = map (Some \<circ> fst) (butlast (concat items)),
           h5_y = map (Some \<circ> snd) (butlast (concat items)), h5_z = dsZ t\<rparr>"
    using t(2,3) b by (simp add: data_normalization_def)
  have z: "length (dsZ t) = length (concat items) - 1" "dsZ t ! 0 = 0"
    using t(4) l assms by auto
  from s1(1) t(1,2) n ne z show ?thesis
    by (simp add: data_subset_def)
qed

text \<open>
  Claim C1. The claim asks for a store of exactly \<open>N\<close> entries after \<open>N\<close> appends. The source
  resizes the three datasets to \<open>i - 1\<close>, so the last saved sequence is cut off: for a
  protocol with a \<open>train\<close> subset of one file with two sequences and no other subset, the
  store that is written holds one entry in each of \<open>X\<close>, \<open>y\<close> and \<open>z\<close>.
\<close>

theorem data_keeps_one_of_two_sequences:
  "data [Files [[([1, 2 :: nat], ''A''), ([3, 4], ''A'')]], NotImplemented, NotImplemented] =
     Inr [Some \<lparr>h5_X = [Some [1, 2]], h5_y = [Some ''A''], h5_z = [0]\<rparr>, None, None]"
proof -
  let ?items = "[[([1, 2 :: nat], ''A''), ([3, 4], ''A'')]]"
  have "2 \<le> length (concat ?items)" by simp
  from data_subset_written [OF this, of data_init] obtain t z where
    t: "data_subset data_init (Files ?items) =
          Inr (t, Some \<lparr>h5_X = map (Some \<circ> fst) (butlast (concat ?items)),
                         h5_y = map (Some \<circ> snd) (butlast (concat ?items)), h5_z = z\<rparr>)"
      "length z = length (concat ?items) - 1" "z ! 0 = 0" by blast
  from t(2,3) have "z = [0]" by (cases z) auto
  with t(1) show ?thesis
    by (simp add: data_def data_subset_def [of _ NotImplemented])
qed

text \<open>
  Claim C7, as amended. When no sequence is appended for a subset, the build fails, but not
  with \<open>EmptyStoreError\<close>. A subset without files raises \<open>StopIteration\<close> at
  \<open>next(file_generator)\<close>. Files that yield no sequence leave \<open>X\<close> as it was before the
  loop, and the failure comes from \<open>X.resize(i-1, axis=0)\<close> with \<open>i = 0\<close>: it raises
  \<open>UnboundLocalError\<close> when no subset before has bound \<open>X\<close>, and the storage library refuses
  it when \<open>X\<close> is still the dataset of the store of an earlier subset. The subsets after
  this one are not reached.
\<close>

theorem data_without_sequences_fails:
  "concat items = [] \<Longrightarrow>
     data_subsets s (Files items # rest) =
       Inl (if items = [] then StopIteration
            else if dsX s = None then UnboundLocalError else StorageError)"
  by (auto simp: data_subset_def data_files_nothing data_truncate_def data_enter_def
      split: option.splits)

text \<open>
  A first subset of two files without any sequence, and a second subset without any
  sequence after a first subset with two sequences.
\<close>

theorem data_without_sequences_fails_witness:
  "data [Files [[], [] :: (nat list \<times> string) list], NotImplemented, NotImplemented] =
     Inl UnboundLocalError \<and>
   data [Files [[([1, 2 :: nat], ''A''), ([3, 4], ''A'')]], Files [[]], NotImplemented] =
     Inl StorageError"
proof -
  let ?items = "[[([1, 2 :: nat], ''A''), ([3, 4], ''A'')]]"
  have a: "data [Files [[], [] :: (nat list \<times> string) list], NotImplemented, NotImplemented] =
      Inl UnboundLocalError"
    using data_without_sequences_fails
      [of "[[], [] :: (nat list \<times> string) list]" data_init "[NotImplemented, NotImplemented]"]
    by (simp add: data_def data_init_def)
  have "2 \<le> length (concat ?items)" by simp
  from data_subset_written [OF this, of data_init] obtain t st where
    t: "data_subset data_init (Files ?items) = Inr (t, st)" "dsX t \<noteq> None" by blast
  have "data_subsets t [Files [[]], NotImplemented] = Inl StorageError"
    using data_without_sequences_fails
      [of "[[] :: (nat list \<times> string) list]" t "[NotImplemented]"] t(2)
    by simp
  with t(1) have "data [Files ?items, Files [[]], NotImplemented] = Inl StorageError"
    by (simp add: data_def)
  with a show ?thesis by simp
qed

text \<open>
  Claim C7 as stated fails: for a first subset of one file that yields no sequence the
  error is \<open>UnboundLocalError\<close>, not \<open>EmptyStoreError\<close>.
\<close>

theorem data_without_sequences_counterexample:
  "data [Files [[] :: (nat list \<times> string) list], NotImplemented, NotImplemented] =
     Inl UnboundLocalError \<and>
   data [Files [[] :: (nat list \<times> string) list], NotImplemented, NotImplemented] \<noteq>
     Inl EmptyStoreError"
  by (simp add: data_def data_subset_def data_truncate_def data_init_def data_enter_def)

subsection \<open>The best epoch\<close>

text \<open>
  Claim C2. The claim asks that the first record of a duplicated epoch be kept, so that the
  log \<open>[(1, 0.3), (2, 0.1), (2, 0.5), (3, 0.2)]\<close> selects epoch 2. In "apply" mode the rows
  are stored into a dictionary one after the other, so the last record \<open>(2, 0.5)\<close> of
  epoch 2 replaces \<open>(2, 0.1)\<close> and epoch 3 is selected. The "compare" mode of the same
  file does keep the first record.
\<close>

theorem apply_selects_epoch_after_last_duplicate:
  "best_epoch [(1, 0.3), (2, 0.1), (2, 0.5), (3, 0.2)] = Inr 3 \<and>
   SortedDict [(1::int, 0.3::rat), (2, 0.1), (2, 0.5), (3, 0.2)] =
     Inr [(1, 0.3), (2, 0.5), (3, 0.2)] \<and>
   compare_eer [(1::int, 0.3::rat), (2, 0.1), (2, 0.5), (3, 0.2)] =
     [(1, 0.3), (2, 0.1), (3, 0.2)]"
  by (simp add: best_epoch_def SortedDict_def compare_eer_def)

subsection \<open>Internal embeddings in batches\<close>

lemma pairwise_snoc:
  "xs \<noteq> [] \<Longrightarrow> pairwise (xs @ [y]) = pairwise xs @ [(last xs, y)]"
proof (induction xs)
  case Nil
  then show ?case by simp
next
  case (Cons x xs)
  then show ?case by (cases xs) (auto simp: pairwise_def)
qed

lemma pairwise_boundaries:
  "pairwise (map g [0..<Suc m]) = map (\<lambda>j. (g j, g (Suc j))) [0..<m]"
proof (induction m)
  case 0
  show ?case by (simp add: pairwise_def)
next
  case (Suc m)
  have "pairwise (map g [0..<Suc (Suc m)]) = pairwise (map g [0..<Suc m] @ [g (Suc m)])"
    by simp
  also have "\<dots> = pairwise (map g [0..<Suc m]) @ [(last (map g [0..<Suc m]), g (Suc m))]"
    by (rule pairwise_snoc) simp
  also have "\<dots> = map (\<lambda>j. (g j, g (Suc j))) [0..<Suc m]"
    using Suc.IH by simp
  finally show ?case .
qed

lemma concat_batches:
  "concat (map (\<lambda>j. embed f (slice (j * b) (Suc j * b) xs)) [0..<m]) = map f (take (m * b) xs)"
proof (induction m)
  case 0
  show ?case by simp
next
  case (Suc m)
  have "take (m * b + b) xs = take (m * b) xs @ take b (drop (m * b) xs)"
    by (rule take_add)
  moreover have "Suc m * b = m * b + b" by simp
  moreover have "slice (m * b) (Suc m * b) xs = take b (drop (m * b) xs)"
    by (simp add: slice_def)
  ultimately show ?case using Suc by (simp add: embed_def del: mult_Suc)
qed

lemma boundaries_count:
  assumes "0 < b"
  shows "(n + b - Suc 0) div b = (if n mod b = 0 then n div b else Suc (n div b))"
proof -
  define d where "d = b * (n div b)"
  have n: "n = d + n mod b" by (simp add: d_def)
  have r: "n mod b < b" using assms by simp
  show ?thesis
  proof (cases "n mod b = 0")
    case True
    have "(n + b - Suc 0) div b = n div b"
    proof (rule div_nat_eqI)
      show "b * (n div b) \<le> n + b - Suc 0" using n True assms by (simp add: d_def)
      show "n + b - Suc 0 < b * Suc (n div b)" using n True assms by (simp add: d_def)
    qed
    with True show ?thesis by simp
  next
    case False
    have "(n + b - Suc 0) div b = Suc (n div b)"
    proof (rule div_nat_eqI)
      have "b * Suc (n div b) = d + b" by (simp add: d_def)
      moreover have "d + b \<le> n + b - Suc 0" using n False by arith
      ultimately show "b * Suc (n div b) \<le> n + b - Suc 0" by simp
      have "b * Suc (Suc (n div b)) = d + b + b" by (simp add: d_def)
      moreover have "n + b - Suc 0 < d + b + b" using n r by arith
      ultimately show "n + b - Suc 0 < b * Suc (Suc (n div b))" by simp
    qed
    with False show ?thesis by simp
  qed
qed

lemma embed_batches_remainder:
  assumes "0 < b" "length XX mod b \<noteq> 0"
  shows "embed_batches b f XX = Inr (embed f XX)"
proof -
  let ?n = "length XX"
  let ?m = "?n div b"
  let ?g = "\<lambda>k. k * b"
  have a: "np_arange ?n b = Inr (map ?g [0..<Suc ?m])"
    using assms by (simp add: np_arange_def boundaries_count)
  have p: "pairwise (map ?g [0..<Suc ?m] @ [?n]) =
             map (\<lambda>j. (?g j, ?g (Suc j))) [0..<?m] @ [(?m * b, ?n)]"
    by (simp add: pairwise_snoc pairwise_boundaries del: upt_Suc mult_Suc) simp
  have l: "slice (?m * b) ?n XX = drop (?m * b) XX"
    by (simp add: slice_def)
  have "concat (map (\<lambda>ij. embed f (slice (fst ij) (snd ij) XX))
          (map (\<lambda>j. (?g j, ?g (Suc j))) [0..<?m] @ [(?m * b, ?n)])) =
        map f (take (?m * b) XX) @ map f (drop (?m * b) XX)"
    using concat_batches [of f b XX ?m] l by (simp add: o_def embed_def del: mult_Suc)
  also have "\<dots> = map f XX"
    by (simp flip: map_append)
  finally show ?thesis
    using assms a p by (simp add: embed_batches_def np_vstack_def embed_def del: upt_Suc mult_Suc)
qed

lemma embed_batches_exact:
  assumes "0 < b" "length XX mod b = 0"
  shows "embed_batches b f XX =
           (if length XX \<le> b then Inl ValueError else Inr (embed f (take (length XX - b) XX)))"
proof -
  let ?n = "length XX"
  let ?m = "?n div b"
  let ?g = "\<lambda>k. k * b"
  have n: "?n = ?m * b" using assms by auto
  have a: "np_arange ?n b = Inr (map ?g [0..<?m])"
    using assms by (simp add: np_arange_def boundaries_count)
  show ?thesis
  proof (cases "?m")
    case 0
    then have "?n = 0" using n by simp
    then show ?thesis using assms a 0
      by (simp add: embed_batches_def np_vstack_def pairwise_def)
  next
    case (Suc k)
    have p: "pairwise (map ?g [0..<Suc k]) = map (\<lambda>j. (?g j, ?g (Suc j))) [0..<k]"
      by (rule pairwise_boundaries)
    have c: "concat (map (\<lambda>ij. embed f (slice (fst ij) (snd ij) XX))
               (map (\<lambda>j. (?g j, ?g (Suc j))) [0..<k])) = map f (take (k * b) XX)"
      using concat_batches [of f b XX k] by (simp add: o_def del: mult_Suc)
    have nb: "?n - b = k * b" using n Suc by simp
    have le: "?n \<le> b \<longleftrightarrow> k = 0" using n Suc assms(1) by auto
    show ?thesis
      using assms a p c nb le Suc
      by (auto simp: embed_batches_def np_vstack_def embed_def simp del: upt_Suc mult_Suc)
  qed
qed

text \<open>
  Claim C4. The claim asks that every sequence be embedded, whatever the number of
  sequences. The batch boundaries end with the number of sequences only when it is not a
  multiple of the batch size (\<open>embed_batches_remainder\<close>); when it is, the last batch is
  never embedded (\<open>embed_batches_exact\<close>). For 4096 sequences and the batch size 2048 of
  the source, only the first 2048 are embedded.
\<close>

theorem internal_embeddings_drop_last_batch:
  "internal_embeddings Suc [0..<4096] = Inr (embed Suc [0..<2048]) \<and>
   length (embed Suc [0..<4096]) = 4096 \<and> length (embed Suc [0..<2048]) = 2048"
proof -
  have "take 2048 [0..<4096] = [0..<2048]" by (simp add: take_upt)
  with embed_batches_exact [of 2048 "[0..<4096]" Suc] show ?thesis
    by (simp add: internal_embeddings_def embed_def)
qed

subsection \<open>One dump per file\<close>

lemma dumped_once_step:
  assumes "dumped_once uid st" "uid f \<notin> fst st"
  shows "dumped_once uid (insert (uid f) (fst st), snd st @ [(f, e)])"
proof -
  have a: "fst st = uid ` fst ` set (snd st)" and d: "distinct (map (uid \<circ> fst) (snd st))"
    using assms(1) by (simp_all add: dumped_once_def)
  have "uid f \<notin> uid ` fst ` set (snd st)" using assms(2) a by simp
  then have "uid f \<notin> set (map (uid \<circ> fst) (snd st))" by (simp add: image_image)
  with d have "distinct (map (uid \<circ> fst) (snd st @ [(f, e)]))" by simp
  moreover have "insert (uid f) (fst st) = uid ` fst ` set (snd st @ [(f, e)])"
    by (subst a) simp
  ultimately show ?thesis by (simp add: dumped_once_def)
qed


lemma apply_files_once:
  "dumped_once uid st \<Longrightarrow> dumped_once uid (apply_files uid emb st fs)"
proof (induction fs arbitrary: st)
  case Nil
  then show ?case by simp
next
  case (Cons f fs)
  show ?case
  proof (cases "uid f \<in> fst st")
    case True
    with Cons show ?thesis by simp
  next
    case False
    from Cons.IH [OF dumped_once_step [OF Cons.prems False]] False show ?thesis by simp
  qed
qed

lemma apply_files_processed:
  "fst (apply_files uid emb st fs) = fst st \<union> uid ` set fs"
proof (induction fs arbitrary: st)
  case Nil
  show ?case by simp
next
  case (Cons f fs)
  show ?case
  proof (cases "uid f \<in> fst st")
    case True
    then have "fst st \<union> uid ` set (f # fs) = fst st \<union> uid ` set fs" by auto
    with Cons True show ?thesis by simp
  next
    case False
    have "fst st \<union> uid ` set (f # fs) = insert (uid f) (fst st) \<union> uid ` set fs" by auto
    with Cons False show ?thesis by simp
  qed
qed

lemma apply_files_emb:
  "\<forall>d\<in>set (snd st). snd d = emb (fst d) \<Longrightarrow>
   \<forall>d\<in>set (snd (apply_files uid emb st fs)). snd d = emb (fst d)"
proof (induction fs arbitrary: st)
  case Nil
  then show ?case by simp
next
  case (Cons f fs)
  show ?case
  proof (cases "uid f \<in> fst st")
    case True
    with Cons show ?thesis by simp
  next
    case False
    have "\<forall>d\<in>set (snd (insert (uid f) (fst st), snd st @ [(f, emb f)])). snd d = emb (fst d)"
      using Cons.prems by simp
    from Cons.IH [OF this] False show ?thesis by simp
  qed
qed


lemma apply_subsets_once:
  "dumped_once uid st \<Longrightarrow> dumped_once uid (fst (apply_subsets uid emb st subs))"
proof (induction subs arbitrary: st)
  case Nil
  then show ?case by simp
next
  case (Cons sub subs)
  show ?case
  proof (cases sub)
    case NotImplemented
    with Cons show ?thesis by simp
  next
    case (Files fs)
    show ?thesis
    proof (cases "fs = []")
      case True
      with Files Cons.prems show ?thesis by simp
    next
      case False
      from Cons.IH [OF apply_files_once [OF Cons.prems, of emb fs]] Files False
      show ?thesis by simp
    qed
  qed
qed

lemma apply_subsets_emb:
  "\<forall>d\<in>set (snd st). snd d = emb (fst d) \<Longrightarrow>
   \<forall>d\<in>set (snd (fst (apply_subsets uid emb st subs))). snd d = emb (fst d)"
proof (induction subs arbitrary: st)
  case Nil
  then show ?case by simp
next
  case (Cons sub subs)
  show ?case
  proof (cases sub)
    case NotImplemented
    with Cons show ?thesis by simp
  next
    case (Files fs)
    show ?thesis
    proof (cases "fs = []")
      case True
      with Files Cons.prems show ?thesis by simp
    next
      case False
      from Cons.IH [OF apply_files_emb [OF Cons.prems, of uid fs]] Files False
      show ?thesis by simp
    qed
  qed
qed

lemma apply_subsets_processed:
  "snd (apply_subsets uid emb st subs) = None \<Longrightarrow>
   fst (fst (apply_subsets uid emb st subs)) =
     fst st \<union> uid ` (\<Union>s\<in>set subs. set (subset_files s))"
proof (induction subs arbitrary: st)
  case Nil
  show ?case by simp
next
  case (Cons sub subs)
  show ?case
  proof (cases sub)
    case NotImplemented
    with Cons show ?thesis by simp
  next
    case (Files fs)
    show ?thesis
    proof (cases "fs = []")
      case True
      with Files Cons.prems show ?thesis by simp
    next
      case False
      let ?st = "apply_files uid emb st fs"
      have r: "apply_subsets uid emb st (sub # subs) = apply_subsets uid emb ?st subs"
        using Files False by simp
      with Cons.prems have "snd (apply_subsets uid emb ?st subs) = None" by simp
      from Cons.IH [OF this]
      have "fst (fst (apply_subsets uid emb ?st subs)) =
              (fst st \<union> uid ` set fs) \<union> uid ` (\<Union>s\<in>set subs. set (subset_files s))"
        by (simp only: apply_files_processed)
      also have "\<dots> = fst st \<union> uid ` (\<Union>s\<in>set (sub # subs). set (subset_files s))"
        using Files by (simp add: image_Un Un_assoc)
      finally show ?thesis using r by simp
    qed
  qed
qed


text \<open>
  Claim C9. In "apply" mode no two dumps are made for the same unique file identifier,
  whatever the three subsets enumerate: a file whose identifier was processed before, in
  an earlier subset or in the same one, is skipped. Every dump holds the embedding of its
  file, and when the run ends without exception every enumerated identifier was dumped.
\<close>

theorem apply_dumps_each_uri_once:
  "distinct (map (uid \<circ> fst) (snd (fst (apply_dump uid emb development test train)))) \<and>
   (\<forall>d\<in>set (snd (fst (apply_dump uid emb development test train))). snd d = emb (fst d)) \<and>
   (snd (apply_dump uid emb development test train) = None \<longrightarrow>
      uid ` fst ` set (snd (fst (apply_dump uid emb development test train))) =
      uid ` (set (subset_files development) \<union> set (subset_files test) \<union>
             set (subset_files train)))"
proof -
  let ?subs = "[development, test, train]"
  let ?r = "apply_subsets uid emb ({}, []) ?subs"
  have i: "dumped_once uid ({}, [])" by (simp add: dumped_once_def)
  have o: "dumped_once uid (fst ?r)"
    by (rule apply_subsets_once [OF i])
  have e: "\<forall>d\<in>set (snd (fst ?r)). snd d = emb (fst d)"
    by (rule apply_subsets_emb) simp
  have u: "(\<Union>s\<in>set ?subs. set (subset_files s)) =
      set (subset_files development) \<union> set (subset_files test) \<union> set (subset_files train)"
    by auto
  have p: "snd ?r = None \<longrightarrow> fst (fst ?r) =
      uid ` (set (subset_files development) \<union> set (subset_files test) \<union>
             set (subset_files train))"
  proof
    assume "snd ?r = None"
    from apply_subsets_processed [OF this] show "fst (fst ?r) =
      uid ` (set (subset_files development) \<union> set (subset_files test) \<union>
             set (subset_files train))"
      by (simp only: u) simp
  qed
  have f: "fst (fst ?r) = uid ` fst ` set (snd (fst ?r))"
    using o by (simp add: dumped_once_def)
  have d: "distinct (map (uid \<circ> fst) (snd (fst ?r)))"
    using o by (simp add: dumped_once_def)
  from d e p show ?thesis
    unfolding apply_dump_def f [symmetric] by blast
qed


text \<open>
  Files 1 and 11 share the identifier 1 within development, file 2 is enumerated by
  development and by train: the dumps are those of files 1, 2 and 3.
\<close>

theorem apply_dumps_each_uri_once_witness:
  "snd (apply_dump (\<lambda>f. f mod 10) Suc (Files [1, 11, 2]) NotImplemented (Files [2, 3 :: nat])) = None \<and>
   map fst (snd (fst (apply_dump (\<lambda>f. f mod 10) Suc (Files [1, 11, 2]) NotImplemented
      (Files [2, 3 :: nat])))) = [1, 2, 3] \<and>
   (\<lambda>f. f mod 10) ` fst ` set (snd (fst (apply_dump (\<lambda>f. f mod 10) Suc (Files [1, 11, 2])
      NotImplemented (Files [2, 3 :: nat])))) =
   (\<lambda>f. f mod 10) ` (set [1, 11, 2] \<union> set [] \<union> set [2, 3])"
proof -
  let ?r = "apply_dump (\<lambda>f. f mod 10) Suc (Files [1, 11, 2]) NotImplemented (Files [2, 3 :: nat])"
  have n: "snd ?r = None" by (simp add: apply_dump_def)
  have m: "map fst (snd (fst ?r)) = [1, 2, 3]" by (simp add: apply_dump_def)
  from n m
    apply_dumps_each_uri_once [of "\<lambda>f. f mod 10" Suc "Files [1, 11, 2]" NotImplemented "Files [2, 3 :: nat]"]
  show ?thesis unfolding subset_files.simps by blast
qed

subsection \<open>Domain classification\<close>
























subsection \<open>The balanced sample\<close>























subsection \<open>No set of groups is preferred by the draw\<close>



subsection \<open>The sample\<close>




subsection \<open>The caches of the verification track\<close>

lemma trial_model_hit:
  assumes "K (hsh (t_key t)) = Some m" "M m = Some v"
  shows "trial_model hsh avg M K tm t = Inr (Enrolment_cache, v, tm)"
  using assms by (simp add: trial_model_def t_key_def)

lemma trial_model_cached:
  assumes "K (hsh (t_key t)) = None" "tm (hsh (t_key t)) = Some v"
  shows "trial_model hsh avg M K tm t = Inr (Trial_cache, v, tm)"
  using assms by (simp add: trial_model_def t_key_def)

lemma trial_model_extracted:
  assumes "K (hsh (t_key t)) = None" "tm (hsh (t_key t)) = None"
  shows "trial_model hsh avg M K tm t =
           Inr (Extracted, avg (t_uri t) (try_with t),
                tm(hsh (t_key t) \<mapsto> avg (t_uri t) (try_with t)))"
  using assms by (simp add: trial_model_def t_key_def Let_def)

lemma trial_model_grows:
  assumes "trial_model hsh avg M K tm t = Inr smt"
  shows "tm \<subseteq>\<^sub>m snd (snd smt)"
proof (cases "K (hsh (t_key t))")
  case (Some m)
  with assms show ?thesis
    by (auto simp: trial_model_def t_key_def split: option.splits)
next
  case None
  show ?thesis
  proof (cases "tm (hsh (t_key t))")
    case (Some v)
    from trial_model_cached [where K = K and hsh = hsh and tm = tm and t = t and avg = avg and M = M, OF None Some] assms
    show ?thesis by auto
  next
    case n: None
    from trial_model_extracted [where K = K and hsh = hsh and tm = tm and t = t and avg = avg and M = M, OF None n] assms have
      "snd (snd smt) = tm(hsh (t_key t) \<mapsto> avg (t_uri t) (try_with t))" by simp
    with n show ?thesis by (auto simp: map_le_def)
  qed
qed

lemma trial_model_stored:
  assumes "trial_model hsh avg M K tm t = Inr smt" "K (hsh (t_key t)) = None"
  shows "snd (snd smt) (hsh (t_key t)) = Some (fst (snd smt))"
proof (cases "tm (hsh (t_key t))")
  case (Some v)
  from trial_model_cached [where K = K and hsh = hsh and tm = tm and t = t and avg = avg and M = M, OF assms(2) Some]
    assms(1) Some show ?thesis by auto
next
  case None
  from trial_model_extracted [where K = K and hsh = hsh and tm = tm and t = t and avg = avg and M = M, OF assms(2) None]
    assms(1) show ?thesis by auto
qed


lemma run_trials_total:
  assumes "\<forall>h m. K h = Some m \<longrightarrow> M m \<noteq> None"
    and "\<forall>t\<in>set ts. M (t_model_id t) \<noteq> None"
  shows "\<exists>out. run_trials hsh avg M K tm ts = Inr out \<and> length out = length ts"
  using assms(2)
proof (induction ts arbitrary: tm)
  case Nil
  show ?case by simp
next
  case (Cons t ts)
  have "\<exists>smt. trial_model hsh avg M K tm t = Inr smt"
  proof (cases "K (hsh (t_key t))")
    case (Some m)
    with assms(1) obtain v where "M m = Some v" by blast
    with Some show ?thesis by (simp add: trial_model_def t_key_def)
  next
    case None
    then show ?thesis
      by (cases "tm (hsh (t_key t))") (simp_all add: trial_model_def t_key_def Let_def)
  qed
  then obtain smt where smt: "trial_model hsh avg M K tm t = Inr smt" by blast
  from Cons.prems obtain target where target: "M (t_model_id t) = Some target" by auto
  from Cons.IH [of "snd (snd smt)"] Cons.prems obtain out where
    "run_trials hsh avg M K (snd (snd smt)) ts = Inr out" "length out = length ts" by auto
  with smt target show ?case by simp
qed

lemma run_trials_step:
  assumes "run_trials hsh avg M K tm (t # ts) = Inr out"
  obtains smt target rest where
    "trial_model hsh avg M K tm t = Inr smt" "M (t_model_id t) = Some target"
    "run_trials hsh avg M K (snd (snd smt)) ts = Inr rest"
    "out = (fst smt, fst (snd smt), target, reference t) # rest"
  using assms by (auto split: sum.splits option.splits)

lemma run_trials_hit:
  assumes "run_trials hsh avg M K tm ts = Inr out" "j < length ts"
    "K (hsh (t_key (ts ! j))) = Some m"
  shows "fst (out ! j) = Enrolment_cache \<and> M m = Some (fst (snd (out ! j)))"
  using assms
proof (induction ts arbitrary: tm out j)
  case Nil
  then show ?case by simp
next
  case (Cons t ts)
  from Cons.prems(1) obtain smt target rest where
    s: "trial_model hsh avg M K tm t = Inr smt" "M (t_model_id t) = Some target"
       "run_trials hsh avg M K (snd (snd smt)) ts = Inr rest"
       "out = (fst smt, fst (snd smt), target, reference t) # rest"
    by (rule run_trials_step)
  show ?case
  proof (cases j)
    case 0
    with Cons.prems(3) have k: "K (hsh (t_key t)) = Some m" by simp
    with s(1) have "fst smt = Enrolment_cache \<and> M m = Some (fst (snd smt))"
      by (auto simp: trial_model_def t_key_def split: option.splits)
    with s(4) 0 show ?thesis by simp
  next
    case (Suc j')
    with Cons.prems(2,3) have "j' < length ts" "K (hsh (t_key (ts ! j'))) = Some m" by simp_all
    from Cons.IH [OF s(3) this] s(4) Suc show ?thesis by simp
  qed
qed

lemma run_trials_cached:
  assumes "run_trials hsh avg M K tm ts = Inr out" "j < length ts"
    "K (hsh (t_key (ts ! j))) = None" "tm (hsh (t_key (ts ! j))) = Some v"
  shows "fst (out ! j) = Trial_cache \<and> fst (snd (out ! j)) = v"
  using assms
proof (induction ts arbitrary: tm out j)
  case Nil
  then show ?case by simp
next
  case (Cons t ts)
  from Cons.prems(1) obtain smt target rest where
    s: "trial_model hsh avg M K tm t = Inr smt" "M (t_model_id t) = Some target"
       "run_trials hsh avg M K (snd (snd smt)) ts = Inr rest"
       "out = (fst smt, fst (snd smt), target, reference t) # rest"
    by (rule run_trials_step)
  show ?case
  proof (cases j)
    case 0
    with Cons.prems(3,4) have k: "K (hsh (t_key t)) = None" "tm (hsh (t_key t)) = Some v"
      by simp_all
    from trial_model_cached [where K = K and hsh = hsh and tm = tm and t = t and avg = avg
        and M = M, OF k] s(1)
    have "smt = (Trial_cache, v, tm)" by simp
    with s(4) 0 show ?thesis by simp
  next
    case (Suc j')
    with Cons.prems(2,3,4) have j: "j' < length ts" "K (hsh (t_key (ts ! j'))) = None"
      "tm (hsh (t_key (ts ! j'))) = Some v" by simp_all
    have "tm \<subseteq>\<^sub>m snd (snd smt)" by (rule trial_model_grows [OF s(1)])
    with j(3) have "snd (snd smt) (hsh (t_key (ts ! j'))) = Some v"
      by (auto simp: map_le_def dom_def)
    from Cons.IH [OF s(3) j(1,2) this] s(4) Suc show ?thesis by simp
  qed
qed


lemma run_trials_same:
  assumes "run_trials hsh avg M K tm ts = Inr out" "i < j" "j < length ts"
    "t_key (ts ! i) = t_key (ts ! j)"
  shows "fst (out ! j) \<noteq> Extracted \<and> fst (snd (out ! j)) = fst (snd (out ! i))"
  using assms
proof (induction ts arbitrary: tm out i j)
  case Nil
  then show ?case by simp
next
  case (Cons t ts)
  from Cons.prems(1) obtain smt target rest where
    s: "trial_model hsh avg M K tm t = Inr smt" "M (t_model_id t) = Some target"
       "run_trials hsh avg M K (snd (snd smt)) ts = Inr rest"
       "out = (fst smt, fst (snd smt), target, reference t) # rest"
    by (rule run_trials_step)
  from Cons.prems(2) obtain j' where j: "j = Suc j'" by (cases j) auto
  with Cons.prems(3) have jl: "j' < length ts" by simp
  show ?case
  proof (cases i)
    case 0
    with Cons.prems(4) j have e: "t_key (ts ! j') = t_key t" by simp
    show ?thesis
    proof (cases "K (hsh (t_key t))")
      case (Some m)
      then have "K (hsh (t_key ((t # ts) ! j))) = Some m" "K (hsh (t_key ((t # ts) ! 0))) = Some m"
        using e j by simp_all
      from run_trials_hit [OF Cons.prems(1,3) this(1)]
        run_trials_hit [OF Cons.prems(1) _ this(2)] 0
      show ?thesis by simp
    next
      case None
      have "snd (snd smt) (hsh (t_key (ts ! j'))) = Some (fst (snd smt))"
        using trial_model_stored [OF s(1) None] e by simp
      moreover have "K (hsh (t_key (ts ! j'))) = None" using None e by simp
      ultimately have "fst (rest ! j') = Trial_cache \<and> fst (snd (rest ! j')) = fst (snd smt)"
        using run_trials_cached [OF s(3) jl] by blast
      with s(4) j 0 show ?thesis by simp
    qed
  next
    case (Suc i')
    with Cons.prems(2,4) j have "i' < j'" "t_key (ts ! i') = t_key (ts ! j')" by simp_all
    from Cons.IH [OF s(3) this(1) jl this(2)] s(4) j Suc show ?thesis by simp
  qed
qed

lemma enrol_all_snoc:
  "enrol_all hsh avg (es @ [e]) = enrol hsh avg (enrol_all hsh avg es) e"
  by (simp add: enrol_all_def)

lemma enrol_all_models_dom:
  "fst (enrol_all hsh avg es) m \<noteq> None \<longleftrightarrow> m \<in> e_model_id ` set es"
proof (induction es rule: rev_induct)
  case Nil
  show ?case by (simp add: enrol_all_def)
next
  case (snoc e es)
  then show ?case by (auto simp: enrol_all_snoc enrol_def)
qed

lemma enrol_all_khashes:
  "snd (enrol_all hsh avg es) h = Some m \<Longrightarrow>
     \<exists>e\<in>set es. e_model_id e = m \<and> hsh (e_key e) = h"
proof (induction es rule: rev_induct)
  case Nil
  then show ?case by (simp add: enrol_all_def)
next
  case (snoc e es)
  show ?case
  proof (cases "hsh (e_key e) = h")
    case True
    with snoc.prems have "e_model_id e = m"
      by (simp add: enrol_all_snoc enrol_def e_key_def)
    with True show ?thesis by auto
  next
    case False
    with snoc.prems have "snd (enrol_all hsh avg es) h = Some m"
      by (simp add: enrol_all_snoc enrol_def e_key_def)
    from snoc.IH [OF this] show ?thesis by auto
  qed
qed

lemma enrol_all_khashes_dom:
  "e \<in> set es \<Longrightarrow> snd (enrol_all hsh avg es) (hsh (e_key e)) \<noteq> None"
proof (induction es rule: rev_induct)
  case Nil
  then show ?case by simp
next
  case (snoc e' es)
  then show ?case by (auto simp: enrol_all_snoc enrol_def e_key_def)
qed

lemma enrol_all_models:
  "distinct (map e_model_id es) \<Longrightarrow> e \<in> set es \<Longrightarrow>
     fst (enrol_all hsh avg es) (e_model_id e) = Some (avg (e_uri e) (enrol_with e))"
proof (induction es rule: rev_induct)
  case Nil
  then show ?case by simp
next
  case (snoc e' es)
  show ?case
  proof (cases "e = e'")
    case True
    then show ?thesis by (simp add: enrol_all_snoc enrol_def)
  next
    case False
    with snoc.prems have m: "e \<in> set es" "distinct (map e_model_id es)"
      "e_model_id e' \<notin> e_model_id ` set es" by auto
    then have "e_model_id e \<noteq> e_model_id e'" by (metis imageI)
    with snoc.IH [OF m(2,1)] show ?thesis by (simp add: enrol_all_snoc enrol_def)
  qed
qed


text \<open>
  Claim C8, as amended. When the model of every trial was enrolled, the run returns one
  result per trial. A trial with the file identifier and time span of an earlier trial
  extracts nothing: its vector comes from the enrolment cache or the trial cache and is the
  vector of the earlier trial. A trial with the file identifier and time span of an
  enrolment always takes its vector from the enrolment cache; this vector is the averaged
  embedding of that file and span provided that the model identifiers of the enrolments
  are pairwise distinct and that the hash separates the enrolled pairs of file and span.
\<close>

theorem verification_reuse:
  assumes "\<forall>t\<in>set trials. t_model_id t \<in> e_model_id ` set enrolments"
  shows "\<exists>out. validate_epoch_verification hsh avg enrolments trials = Inr out \<and>
      length out = length trials \<and>
      (\<forall>i j. i < j \<and> j < length trials \<and> t_key (trials ! i) = t_key (trials ! j) \<longrightarrow>
         fst (out ! j) \<noteq> Extracted \<and> fst (snd (out ! j)) = fst (snd (out ! i))) \<and>
      (\<forall>j<length trials. t_key (trials ! j) \<in> e_key ` set enrolments \<longrightarrow>
         fst (out ! j) = Enrolment_cache \<and>
         (distinct (map e_model_id enrolments) \<and> inj_on hsh (e_key ` set enrolments) \<longrightarrow>
            fst (snd (out ! j)) = avg (t_uri (trials ! j)) (try_with (trials ! j))))"
proof -
  let ?M = "fst (enrol_all hsh avg enrolments)"
  let ?K = "snd (enrol_all hsh avg enrolments)"
  have ok: "\<forall>h m. ?K h = Some m \<longrightarrow> ?M m \<noteq> None"
  proof (intro allI impI)
    fix h m assume "?K h = Some m"
    from enrol_all_khashes [OF this] have "m \<in> e_model_id ` set enrolments" by auto
    then show "?M m \<noteq> None" by (simp only: enrol_all_models_dom)
  qed
  have tg: "\<forall>t\<in>set trials. ?M (t_model_id t) \<noteq> None"
    using assms by (simp only: enrol_all_models_dom)
  from run_trials_total [OF ok tg, of hsh avg Map.empty] obtain out where
    out: "run_trials hsh avg ?M ?K Map.empty trials = Inr out" "length out = length trials"
    by blast
  have v: "validate_epoch_verification hsh avg enrolments trials = Inr out"
    using out(1) by (simp add: validate_epoch_verification_def Let_def)
  have A: "\<forall>i j. i < j \<and> j < length trials \<and> t_key (trials ! i) = t_key (trials ! j) \<longrightarrow>
         fst (out ! j) \<noteq> Extracted \<and> fst (snd (out ! j)) = fst (snd (out ! i))"
    using run_trials_same [OF out(1)] by blast
  have B: "fst (out ! j) = Enrolment_cache"
    if j: "j < length trials" and k: "t_key (trials ! j) \<in> e_key ` set enrolments" for j
  proof -
    from k obtain e0 where e0: "e0 \<in> set enrolments" "e_key e0 = t_key (trials ! j)" by auto
    from enrol_all_khashes_dom [OF e0(1), of hsh avg] e0(2)
    obtain m where m: "?K (hsh (t_key (trials ! j))) = Some m" by auto
    from run_trials_hit [OF out(1) j m] show ?thesis by simp
  qed
  have C: "fst (snd (out ! j)) = avg (t_uri (trials ! j)) (try_with (trials ! j))"
    if d: "distinct (map e_model_id enrolments)" and inj: "inj_on hsh (e_key ` set enrolments)"
      and j: "j < length trials" and k: "t_key (trials ! j) \<in> e_key ` set enrolments" for j
  proof -
    from k obtain e0 where e0: "e0 \<in> set enrolments" "e_key e0 = t_key (trials ! j)" by auto
    from enrol_all_khashes_dom [OF e0(1), of hsh avg] e0(2)
    obtain m where m: "?K (hsh (t_key (trials ! j))) = Some m" by auto
    from enrol_all_khashes [OF m] obtain e where
      e: "e \<in> set enrolments" "e_model_id e = m" "hsh (e_key e) = hsh (t_key (trials ! j))"
      by blast
    have "e_key e = t_key (trials ! j)"
      using inj e(1,3) k by (auto dest: inj_onD)
    then have ev: "avg (e_uri e) (enrol_with e) = avg (t_uri (trials ! j)) (try_with (trials ! j))"
      by (simp add: e_key_def t_key_def)
    have "?M m = Some (avg (e_uri e) (enrol_with e))"
      using enrol_all_models [OF d e(1), of hsh avg] e(2) by simp
    with run_trials_hit [OF out(1) j m] ev show ?thesis by simp
  qed
  from v out(2) A B C show ?thesis by blast
qed


text \<open>
  One enrolment of file 1, then two trials on file 2 and one trial on file 1: the second
  trial reuses the vector cached by the first, the third reuses the enrolment.
\<close>

theorem verification_reuse_witness:
  "map t_model_id
     [\<lparr>t_model_id = 7::nat, t_uri = 2::nat, try_with = 20::nat, reference = False\<rparr>,
      \<lparr>t_model_id = 7::nat, t_uri = 2::nat, try_with = 20::nat, reference = False\<rparr>,
      \<lparr>t_model_id = 7, t_uri = 1, try_with = 10, reference = True\<rparr>] = [7, 7, 7] \<and>
   map e_model_id [\<lparr>e_model_id = 7::nat, e_uri = 1::nat, enrol_with = 10::nat\<rparr>] = [7] \<and>
   map e_key [\<lparr>e_model_id = 7::nat, e_uri = 1::nat, enrol_with = 10::nat\<rparr>] = [(1, 10)] \<and>
   validate_epoch_verification id Pair
     [\<lparr>e_model_id = 7::nat, e_uri = 1::nat, enrol_with = 10::nat\<rparr>]
     [\<lparr>t_model_id = 7::nat, t_uri = 2::nat, try_with = 20::nat, reference = False\<rparr>,
      \<lparr>t_model_id = 7::nat, t_uri = 2::nat, try_with = 20::nat, reference = False\<rparr>,
      \<lparr>t_model_id = 7, t_uri = 1, try_with = 10, reference = True\<rparr>] =
     Inr [(Extracted, (2, 20), (1, 10), False), (Trial_cache, (2, 20), (1, 10), False),
          (Enrolment_cache, (1, 10), (1, 10), True)] \<and>
   (\<exists>out. validate_epoch_verification id Pair
     [\<lparr>e_model_id = 7::nat, e_uri = 1::nat, enrol_with = 10::nat\<rparr>]
     [\<lparr>t_model_id = 7::nat, t_uri = 2::nat, try_with = 20::nat, reference = False\<rparr>,
      \<lparr>t_model_id = 7::nat, t_uri = 2::nat, try_with = 20::nat, reference = False\<rparr>,
      \<lparr>t_model_id = 7, t_uri = 1, try_with = 10, reference = True\<rparr>] = Inr out \<and>
      fst (out ! 1) \<noteq> Extracted \<and> fst (snd (out ! 1)) = fst (snd (out ! 0)) \<and>
      fst (out ! 2) = Enrolment_cache \<and> fst (snd (out ! 2)) = (1, 10))"
proof -
  let ?E = "[\<lparr>e_model_id = 7::nat, e_uri = 1::nat, enrol_with = 10::nat\<rparr>]"
  let ?T = "[\<lparr>t_model_id = 7::nat, t_uri = 2::nat, try_with = 20::nat, reference = False\<rparr>,
      \<lparr>t_model_id = 7::nat, t_uri = 2::nat, try_with = 20::nat, reference = False\<rparr>,
      \<lparr>t_model_id = 7, t_uri = 1, try_with = 10, reference = True\<rparr>]"
  have h: "\<forall>t\<in>set ?T. t_model_id t \<in> e_model_id ` set ?E" by simp
  have d: "distinct (map e_model_id ?E)" by simp
  have i: "inj_on id (e_key ` set ?E)" by simp
  have v: "validate_epoch_verification id Pair ?E ?T =
     Inr [(Extracted, (2, 20), (1, 10), False), (Trial_cache, (2, 20), (1, 10), False),
          (Enrolment_cache, (1, 10), (1, 10), True)]"
    by (simp add: validate_epoch_verification_def enrol_all_def enrol_def trial_model_def Let_def)
  from verification_reuse [OF h, of id Pair] obtain out where
    o: "validate_epoch_verification id Pair ?E ?T = Inr out"
    "\<forall>i j. i < j \<and> j < length ?T \<and> t_key (?T ! i) = t_key (?T ! j) \<longrightarrow>
         fst (out ! j) \<noteq> Extracted \<and> fst (snd (out ! j)) = fst (snd (out ! i))"
    "\<forall>j<length ?T. t_key (?T ! j) \<in> e_key ` set ?E \<longrightarrow>
         fst (out ! j) = Enrolment_cache \<and>
         (distinct (map e_model_id ?E) \<and> inj_on id (e_key ` set ?E) \<longrightarrow>
            fst (snd (out ! j)) = Pair (t_uri (?T ! j)) (try_with (?T ! j)))"
    by blast
  have a: "fst (out ! 1) \<noteq> Extracted \<and> fst (snd (out ! 1)) = fst (snd (out ! 0))"
    using o(2) [rule_format, of 0 1] by (simp add: t_key_def)
  have b: "fst (out ! 2) = Enrolment_cache \<and> fst (snd (out ! 2)) = (1, 10)"
    using o(3) [rule_format, of 2] d i by (simp add: t_key_def e_key_def)
  have m: "map t_model_id ?T = [7, 7, 7]" "map e_model_id ?E = [7]"
    "map e_key ?E = [(1, 10)]"
    by (simp_all add: e_key_def)
  from m v o(1) a b show ?thesis by blast
qed

text \<open>
  Claim C8 as stated fails when a model identifier is enrolled twice: the enrolment cache
  is keyed by model identifier, so the trial on file 1 and span 10, which is the file and
  span of the first enrolment, gets the vector of the second enrolment (file 2, span 20).
\<close>

theorem verification_reuse_counterexample:
  "validate_epoch_verification id Pair
     [\<lparr>e_model_id = 7::nat, e_uri = 1::nat, enrol_with = 10::nat\<rparr>,
      \<lparr>e_model_id = 7, e_uri = 2, enrol_with = 20\<rparr>]
     [\<lparr>t_model_id = 7, t_uri = 1, try_with = 10, reference = True\<rparr>] =
     Inr [(Enrolment_cache, (2, 20), (2, 20), True)] \<and>
   t_key \<lparr>t_model_id = 7::nat, t_uri = 1::nat, try_with = 10::nat, reference = True\<rparr> =
     e_key \<lparr>e_model_id = 7::nat, e_uri = 1::nat, enrol_with = 10::nat\<rparr> \<and>
   Pair (e_uri \<lparr>e_model_id = 7::nat, e_uri = 1::nat, enrol_with = 10::nat\<rparr>)
        (enrol_with \<lparr>e_model_id = 7::nat, e_uri = 1::nat, enrol_with = 10::nat\<rparr>) \<noteq> (2, 20)"
  by (simp add: validate_epoch_verification_def enrol_all_def enrol_def trial_model_def
      t_key_def e_key_def Let_def)

subsection \<open>The name of the data directory\<close>

























lemma strip_zeros_last: "strip_zeros s \<noteq> [] \<Longrightarrow> last (strip_zeros s) \<noteq> CHR ''0''"
proof -
  assume a: "strip_zeros s \<noteq> []"
  let ?d = "dropWhile (\<lambda>c. c = CHR ''0'') (rev s)"
  from a have d: "?d \<noteq> []" by (simp add: strip_zeros_def)
  then have "hd ?d \<noteq> CHR ''0''" using hd_dropWhile [of "\<lambda>c. c = CHR ''0''" "rev s"] by simp
  with d show ?thesis by (simp add: strip_zeros_def last_rev)
qed























lemma digit_hd: "list_all is_digit s \<Longrightarrow> s \<noteq> [] \<Longrightarrow> is_digit (hd s)"
  by (simp add: list_all_iff)























end
